theory Spec2Isabelle
  imports Main
begin

section \<open>The growable array of appendable\_arrays.c\<close>

text \<open>
  The C file keeps a heap block of \<open>int\<close> slots behind a bookkeeping struct:
  \<^verbatim>\<open>struct Array { int* data; int capacity; int length; };\<close>
  The block is modelled as the list of its slots. A slot that \<open>malloc\<close> handed out and
  nobody wrote yet holds no determinate value: it is \<open>None\<close>; a written slot is
  \<open>Some v\<close>. The size of the list is the number of slots the allocation really has,
  which the struct only mirrors in \<open>capacity\<close>.
  The field \<open>length\<close> of the struct is \<open>length_arr\<close> here, and the functions
  \<open>set\<close> and \<open>append\<close> are \<open>set_arr\<close> and \<open>append_arr\<close>, since the plain names
  are list constants of HOL.
\<close>

type_synonym block = "int option list"

record Array =
  data :: block
  capacity :: int
  length_arr :: int

text \<open>
  The C type \<open>int\<close> is taken as the 32-bit type of the Linux targets the file is
  written for. Values are mathematical integers; an operation whose result leaves
  the range is a signed overflow, which C leaves undefined and the model reports.
\<close>

definition INT_MAX :: int where
  "INT_MAX = 2147483647"

definition INT_MIN :: int where
  "INT_MIN = - 2147483648"

text \<open>
  What ends a call without a result:
  \<^item> \<open>RangeErrorEnd\<close>, \<open>RangeErrorStart\<close>: the two assertions of \<open>get\<close> and
    \<open>set\<close> ("beyond the end", "beyond the start"); a failed assertion aborts the process;
  \<^item> \<open>OutOfBlock\<close>: an access to a slot the block does not have (undefined in C);
  \<^item> \<open>Indeterminate\<close>: a read of a slot that was never written (C returns an
    indeterminate value);
  \<^item> \<open>SignedOverflow\<close>: an \<open>int\<close> computation that leaves the range (undefined in C).
\<close>

datatype fault = RangeErrorEnd | RangeErrorStart | OutOfBlock | Indeterminate | SignedOverflow

text \<open>The two assertion failures are what the interface calls an out-of-range index.\<close>

fun OutOfRange :: "fault \<Rightarrow> bool" where
  "OutOfRange RangeErrorEnd = True"
| "OutOfRange RangeErrorStart = True"
| "OutOfRange OutOfBlock = False"
| "OutOfRange Indeterminate = False"
| "OutOfRange SignedOverflow = False"

subsection \<open>Memory primitives\<close>

text \<open>
  \<^verbatim>\<open>malloc(sizeof(int) * n)\<close>: a fresh block of \<open>n\<close> unwritten slots. Allocation is
  taken to succeed for every request that is not negative (the file never tests the
  pointer). A negative \<open>n\<close> becomes a huge \<open>size_t\<close>, the request cannot be served,
  and no slot can be used: the block is empty.
\<close>

definition malloc_slots :: "int \<Rightarrow> block" where
  "malloc_slots n = replicate (nat n) None"

text \<open>
  \<^verbatim>\<open>memcpy(dst, src, sizeof(int) * n)\<close>: the first \<open>n\<close> slots of \<open>src\<close> replace
  the first \<open>n\<close> slots of \<open>dst\<close>. Both blocks must have \<open>n\<close> slots; a negative
  \<open>n\<close> is a huge \<open>size_t\<close> and runs out of both.
\<close>

definition memcpy_slots :: "block \<Rightarrow> block \<Rightarrow> int \<Rightarrow> fault + block" where
  "memcpy_slots dst src n =
     (if 0 \<le> n \<and> nat n \<le> size src \<and> nat n \<le> size dst
      then Inr (take (nat n) src @ drop (nat n) dst)
      else Inl OutOfBlock)"

text \<open>\<^verbatim>\<open>p[i] = v\<close> and \<^verbatim>\<open>p[i]\<close> on a block.\<close>

definition store_slot :: "block \<Rightarrow> int \<Rightarrow> int \<Rightarrow> fault + block" where
  "store_slot b i v =
     (if 0 \<le> i \<and> nat i < size b then Inr (b[nat i := Some v]) else Inl OutOfBlock)"

definition load_slot :: "block \<Rightarrow> int \<Rightarrow> fault + int" where
  "load_slot b i =
     (if 0 \<le> i \<and> nat i < size b
      then (case b ! nat i of None \<Rightarrow> Inl Indeterminate | Some v \<Rightarrow> Inr v)
      else Inl OutOfBlock)"

subsection \<open>The functions of the file\<close>

text \<open>
  \<^verbatim>\<open>
  Array* newArray(int capacity){
      Array* a    = malloc(sizeof(Array));
      a->data     = malloc(sizeof(int) * capacity);
      a->capacity = capacity;
      a->length   = 0;
      return a;
  }
  \<close>
\<close>

definition newArray :: "int \<Rightarrow> Array" where
  "newArray cap = \<lparr>data = malloc_slots cap, capacity = cap, length_arr = 0\<rparr>"

text \<open>
  \<^verbatim>\<open>
  void set(Array* a, int idx, int value){
      assert(idx < a->length && "Range error: ... beyond the end of the array");
      assert(idx >= 0 && "Range error: ... beyond the start of the array");
      a->data[idx] = value;
  }
  \<close>
  The assertions run in this order, before the store.
\<close>

definition set_arr :: "Array \<Rightarrow> int \<Rightarrow> int \<Rightarrow> fault + Array" where
  "set_arr a idx v =
     (if idx < length_arr a then
        (if idx \<ge> 0 then
           (case store_slot (data a) idx v of
              Inl e \<Rightarrow> Inl e
            | Inr d \<Rightarrow> Inr (a\<lparr>data := d\<rparr>))
         else Inl RangeErrorStart)
      else Inl RangeErrorEnd)"

text \<open>
  \<^verbatim>\<open>
  int get(Array* a, int idx){
      assert(idx < a->length && "Range error: ... beyond the end of the array");
      assert(idx >= 0 && "Range error: ... beyond the start of the array");
      return a->data[idx];
  }
  \<close>
\<close>

definition get :: "Array \<Rightarrow> int \<Rightarrow> fault + int" where
  "get a idx =
     (if idx < length_arr a then
        (if idx \<ge> 0 then load_slot (data a) idx
         else Inl RangeErrorStart)
      else Inl RangeErrorEnd)"

text \<open>
  The body of the \<open>if\<close> of \<open>append\<close>:
  \<^verbatim>\<open>
        int* newData = malloc(sizeof(int) * a->capacity * 2);
        memcpy(newData, a->data, sizeof(int) * a->length);
        free(a->data);
        a->data = newData;
        a->capacity *= 2;
  \<close>
\<close>

definition grow :: "Array \<Rightarrow> fault + Array" where
  "grow a =
     (case memcpy_slots (malloc_slots (capacity a * 2)) (data a) (length_arr a) of
        Inl e \<Rightarrow> Inl e
      | Inr newData \<Rightarrow>
          (if capacity a * 2 < INT_MIN then Inl SignedOverflow
           else if INT_MAX < capacity a * 2 then Inl SignedOverflow
           else Inr (a\<lparr>data := newData, capacity := capacity a * 2\<rparr>)))"

text \<open>
  \<^verbatim>\<open>
  void append(Array* a, int value){
      if(a->length == a->capacity){
          ... (grow)
      }
      a->data[a->length] = value;
      a->length++;
  }
  \<close>
\<close>

definition append_tail :: "Array \<Rightarrow> int \<Rightarrow> fault + Array" where
  "append_tail a v =
     (case store_slot (data a) (length_arr a) v of
        Inl e \<Rightarrow> Inl e
      | Inr d \<Rightarrow>
          (if length_arr a = INT_MAX then Inl SignedOverflow
           else Inr (a\<lparr>data := d, length_arr := length_arr a + 1\<rparr>)))"

definition append_arr :: "Array \<Rightarrow> int \<Rightarrow> fault + Array" where
  "append_arr a v =
     (if length_arr a = capacity a then
        (case grow a of
           Inl e \<Rightarrow> Inl e
         | Inr a' \<Rightarrow> append_tail a' v)
      else append_tail a v)"

text \<open>
  \<^verbatim>\<open>
  void popBack(Array* a){
      a->length--;
      // TODO: shrink size.
  }
  \<close>
  There is no test of the length: the decrement is all the function does.
\<close>

definition popBack :: "Array \<Rightarrow> fault + Array" where
  "popBack a =
     (if length_arr a = INT_MIN then Inl SignedOverflow
      else Inr (a\<lparr>length_arr := length_arr a - 1\<rparr>))"

text \<open>
  \<^verbatim>\<open>void popFront(Array* a){ /* ... */ }\<close>: the body is a comment.
\<close>

definition popFront :: "Array \<Rightarrow> Array" where
  "popFront a = a"

subsection \<open>Sequences of calls\<close>

text \<open>
  A program such as \<open>main\<close> calls the functions one after the other on the same
  array; the first call that ends without a result ends the run.
\<close>

datatype call = Get int | Set int int | Append int | PopBack | PopFront

fun step :: "Array \<Rightarrow> call \<Rightarrow> fault + Array" where
  "step a (Get i) = (case get a i of Inl e \<Rightarrow> Inl e | Inr _ \<Rightarrow> Inr a)"
| "step a (Set i v) = set_arr a i v"
| "step a (Append v) = append_arr a v"
| "step a PopBack = popBack a"
| "step a PopFront = Inr (popFront a)"

fun run :: "Array \<Rightarrow> call list \<Rightarrow> fault + Array" where
  "run a [] = Inr a"
| "run a (c # cs) = (case step a c of Inl e \<Rightarrow> Inl e | Inr a' \<Rightarrow> run a' cs)"

text \<open>Appending the values of a list in order.\<close>

fun append_all :: "Array \<Rightarrow> int list \<Rightarrow> fault + Array" where
  "append_all a [] = Inr a"
| "append_all a (v # vs) =
     (case append_arr a v of Inl e \<Rightarrow> Inl e | Inr a' \<Rightarrow> append_all a' vs)"

text \<open>The elements an array shows through \<open>get\<close>, from index 0 to \<open>length - 1\<close>.\<close>

definition contents :: "Array \<Rightarrow> (fault + int) list" where
  "contents a = map (\<lambda>i. get a (int i)) [0 ..< nat (length_arr a)]"

subsection \<open>Well-formed arrays\<close>

text \<open>
  The slots an array counts as its elements: the first \<open>length\<close> slots of the block.
\<close>

definition elems :: "Array \<Rightarrow> block" where
  "elems a = take (nat (length_arr a)) (data a)"

text \<open>
  The state the comments of the file describe: \<open>capacity\<close> is the size of the block,
  \<open>length\<close> is how much of it is in use, and every slot in use has been written.
\<close>

definition well_formed :: "Array \<Rightarrow> bool" where
  "well_formed a =
     (0 \<le> length_arr a \<and> length_arr a \<le> capacity a \<and> capacity a \<le> INT_MAX
      \<and> int (size (data a)) = capacity a
      \<and> list_all (\<lambda>s. s \<noteq> None) (elems a))"

section \<open>Properties\<close>

lemmas prim_defs = malloc_slots_def memcpy_slots_def store_slot_def load_slot_def
lemmas op_defs = newArray_def set_arr_def get_def grow_def append_tail_def append_arr_def
  popBack_def popFront_def INT_MAX_def INT_MIN_def
lemmas num_defs = numeral_2_eq_2 numeral_3_eq_3 eval_nat_numeral

subsection \<open>Blocks\<close>

lemma take_eq_slot:
  assumes "take n d1 = take n d2" and "i < n"
  shows "(i < size d1 \<longleftrightarrow> i < size d2) \<and> d1 ! i = d2 ! i"
proof -
  have "size (take n d1) = size (take n d2)" using assms(1) by simp
  then have "min (size d1) n = min (size d2) n" by simp
  with assms(2) have "i < size d1 \<longleftrightarrow> i < size d2" by linarith
  moreover have "take n d1 ! i = take n d2 ! i" using assms(1) by simp
  then have "d1 ! i = d2 ! i" using assms(2) by simp
  ultimately show ?thesis by simp
qed

lemma load_slot_take:
  assumes "take (nat n) d1 = take (nat n) d2" and "0 \<le> i" and "i < n"
  shows "load_slot d1 i = load_slot d2 i"
proof -
  have "nat i < nat n" using assms(2,3) by simp
  from take_eq_slot [OF assms(1) this] show ?thesis
    by (simp add: load_slot_def)
qed


subsection \<open>Appending to a well-formed array\<close>

text \<open>
  On a well-formed array with at least one slot, \<open>append\<close> returns as long as the
  doubled capacity is an \<open>int\<close>; the result is well formed again and has the new value
  behind the old elements.
\<close>

lemma take_Suc_update:
  "n < size xs \<Longrightarrow> take (Suc n) (xs[n := x]) = take n xs @ [x]"
  by (simp add: take_Suc_conv_app_nth)

lemma append_tail_elems:
  assumes "0 \<le> length_arr a" and "length_arr a < int (size (data a))"
    and "length_arr a < INT_MAX"
  shows "\<exists>a'. append_tail a v = Inr a' \<and> length_arr a' = length_arr a + 1
           \<and> capacity a' = capacity a \<and> size (data a') = size (data a)
           \<and> elems a' = elems a @ [Some v]"
proof -
  let ?n = "nat (length_arr a)"
  have n: "?n < size (data a)" using assms by linarith
  have s: "nat (length_arr a + 1) = Suc ?n" using assms(1) by linarith
  show ?thesis
    using assms n by (simp add: append_tail_def store_slot_def elems_def s take_Suc_update)
qed

lemma grow_elems:
  assumes "0 \<le> length_arr a" and "length_arr a = capacity a"
    and "int (size (data a)) = capacity a" and "capacity a * 2 \<le> INT_MAX"
  shows "grow a = Inr (a\<lparr>data := data a @ replicate (nat (capacity a)) None,
                         capacity := capacity a * 2\<rparr>)"
proof -
  have sz: "size (data a) = nat (capacity a)" using assms(3) by linarith
  have d: "nat (capacity a * 2) - nat (capacity a) = nat (capacity a)"
    using assms by linarith
  have m: "INT_MIN \<le> capacity a * 2" using assms(1,2) by (simp add: INT_MIN_def)
  have c: "0 \<le> capacity a" "nat (capacity a) \<le> nat (capacity a * 2)"
    using assms(1,2) by linarith+
  show ?thesis
    using assms m sz d c by (simp add: grow_def memcpy_slots_def malloc_slots_def)
qed

lemma append_arr_well_formed:
  assumes wf: "well_formed a" and cap: "1 \<le> capacity a"
    and room: "length_arr a < capacity a \<or> capacity a * 2 \<le> INT_MAX"
  shows "\<exists>a'. append_arr a v = Inr a' \<and> well_formed a' \<and> 1 \<le> capacity a'
           \<and> length_arr a' = length_arr a + 1
           \<and> capacity a' = (if length_arr a = capacity a then capacity a * 2 else capacity a)
           \<and> elems a' = elems a @ [Some v]"
proof (cases "length_arr a = capacity a")
  case False
  with wf have lt: "length_arr a < capacity a" by (simp add: well_formed_def)
  from wf lt have "0 \<le> length_arr a" "length_arr a < int (size (data a))" "length_arr a < INT_MAX"
    by (simp_all add: well_formed_def)
  from append_tail_elems [OF this, of v] obtain a' where a':
    "append_tail a v = Inr a'" "length_arr a' = length_arr a + 1"
    "capacity a' = capacity a" "size (data a') = size (data a)" "elems a' = elems a @ [Some v]"
    by blast
  have "well_formed a'" using wf lt a' by (simp add: well_formed_def)
  then show ?thesis using False a' cap by (simp add: append_arr_def)
next
  case True
  with room have dbl: "capacity a * 2 \<le> INT_MAX" by simp
  let ?g = "a\<lparr>data := data a @ replicate (nat (capacity a)) None, capacity := capacity a * 2\<rparr>"
  from wf True dbl have g: "grow a = Inr ?g"
    by (intro grow_elems) (simp_all add: well_formed_def)
  have "int (size (data a)) = capacity a" using wf by (simp add: well_formed_def)
  then have sz: "size (data a) = nat (capacity a)" by linarith
  have eg: "elems ?g = elems a" using True sz by (simp add: elems_def)
  from wf True cap dbl have "0 \<le> length_arr ?g" "length_arr ?g < int (size (data ?g))"
    "length_arr ?g < INT_MAX"
    by (simp_all add: well_formed_def)
  from append_tail_elems [OF this, of v] obtain a' where a':
    "append_tail ?g v = Inr a'" "length_arr a' = length_arr ?g + 1"
    "capacity a' = capacity ?g" "size (data a') = size (data ?g)" "elems a' = elems ?g @ [Some v]"
    by blast
  have "well_formed a'" using wf True cap dbl a' eg by (simp add: well_formed_def)
  then show ?thesis using True a' cap g eg by (simp add: append_arr_def)
qed


lemma newArray_well_formed:
  "0 \<le> c \<Longrightarrow> c \<le> INT_MAX \<Longrightarrow> well_formed (newArray c) \<and> elems (newArray c) = []"
  by (simp add: well_formed_def elems_def newArray_def malloc_slots_def)

lemma append_all_well_formed:
  "well_formed a \<Longrightarrow> 1 \<le> capacity a \<Longrightarrow> 2 * (length_arr a + int (size vs)) \<le> INT_MAX \<Longrightarrow>
   \<exists>a'. append_all a vs = Inr a' \<and> well_formed a' \<and> 1 \<le> capacity a'
        \<and> length_arr a' = length_arr a + int (size vs)
        \<and> elems a' = elems a @ map Some vs"
proof (induction vs arbitrary: a)
  case Nil
  then show ?case by simp
next
  case (Cons v vs)
  have "length_arr a < capacity a \<or> capacity a * 2 \<le> INT_MAX"
  proof (cases "length_arr a < capacity a")
    case False
    with Cons.prems(1) have "capacity a = length_arr a" by (simp add: well_formed_def)
    with Cons.prems(3) show ?thesis by simp
  qed simp
  from append_arr_well_formed [OF Cons.prems(1,2) this, of v] obtain b where b:
    "append_arr a v = Inr b" "well_formed b" "1 \<le> capacity b"
    "length_arr b = length_arr a + 1" "elems b = elems a @ [Some v]"
    by blast
  have "2 * (length_arr b + int (size vs)) \<le> INT_MAX" using b(4) Cons.prems(3) by simp
  from Cons.IH [OF b(2,3) this] obtain a' where a':
    "append_all b vs = Inr a'" "well_formed a'" "1 \<le> capacity a'"
    "length_arr a' = length_arr b + int (size vs)" "elems a' = elems b @ map Some vs"
    by blast
  show ?case using b a' by simp
qed

lemma get_elems:
  assumes "0 \<le> i" and "i < length_arr a" and "length_arr a \<le> int (size (data a))"
  shows "get a i = (case elems a ! nat i of None \<Rightarrow> Inl Indeterminate | Some v \<Rightarrow> Inr v)"
proof -
  have "nat i < nat (length_arr a)" "nat i < size (data a)" using assms by linarith+
  then show ?thesis using assms(1,2) by (simp add: get_def load_slot_def elems_def)
qed

lemma append_all_newArray:
  assumes "1 \<le> c" and "c \<le> INT_MAX" and "2 * int (size vs) \<le> INT_MAX"
  shows "\<exists>a'. append_all (newArray c) vs = Inr a' \<and> length_arr a' = int (size vs)
           \<and> (\<forall>i < size vs. get a' (int i) = Inr (vs ! i))"
proof -
  have wf: "well_formed (newArray c)" and e: "elems (newArray c) = []"
    using newArray_well_formed [of c] assms(1,2) by simp_all
  have "1 \<le> capacity (newArray c)" "2 * (length_arr (newArray c) + int (size vs)) \<le> INT_MAX"
    using assms by (simp_all add: newArray_def)
  from append_all_well_formed [OF wf this] obtain a' where a':
    "append_all (newArray c) vs = Inr a'" "well_formed a'"
    "length_arr a' = length_arr (newArray c) + int (size vs)"
    "elems a' = elems (newArray c) @ map Some vs"
    by blast
  have len: "length_arr a' = int (size vs)" using a'(3) by (simp add: newArray_def)
  have blk: "length_arr a' \<le> int (size (data a'))" using a'(2) by (simp add: well_formed_def)
  have "get a' (int i) = Inr (vs ! i)" if "i < size vs" for i
    using get_elems [of "int i" a'] that len blk a'(4) e by simp
  then show ?thesis using a'(1) len by blast
qed

subsection \<open>What every state of a run satisfies\<close>

text \<open>
  Whatever the calls and whatever the capacity given to \<open>newArray\<close>, a state that a
  run reaches has its first \<open>length\<close> slots inside the block: a call that would
  leave them ends the run.
\<close>

lemma append_tail_within_block:
  assumes "append_tail a v = Inr a'"
  shows "length_arr a' \<le> int (size (data a'))"
proof -
  from assms have "0 \<le> length_arr a \<and> nat (length_arr a) < size (data a)"
    and "length_arr a' = length_arr a + 1" and "size (data a') = size (data a)"
    by (auto simp: append_tail_def store_slot_def split: if_splits)
  then show ?thesis by linarith
qed

lemma append_arr_within_block:
  "append_arr a v = Inr a' \<Longrightarrow> length_arr a' \<le> int (size (data a'))"
  by (auto simp: append_arr_def split: if_splits sum.splits dest: append_tail_within_block)

lemma set_arr_within_block:
  "length_arr a \<le> int (size (data a)) \<Longrightarrow> set_arr a i v = Inr a' \<Longrightarrow>
   length_arr a' \<le> int (size (data a'))"
  by (auto simp: set_arr_def store_slot_def split: if_splits)

lemma popBack_within_block:
  "length_arr a \<le> int (size (data a)) \<Longrightarrow> popBack a = Inr a' \<Longrightarrow>
   length_arr a' \<le> int (size (data a'))"
  by (auto simp: popBack_def split: if_splits)

lemma step_within_block:
  "length_arr a \<le> int (size (data a)) \<Longrightarrow> step a c = Inr a' \<Longrightarrow>
   length_arr a' \<le> int (size (data a'))"
proof (cases c)
  case (Get i)
  assume "length_arr a \<le> int (size (data a))" "step a c = Inr a'"
  with Get show ?thesis by (auto split: sum.splits)
next
  case (Set i v)
  assume "length_arr a \<le> int (size (data a))" "step a c = Inr a'"
  with Set show ?thesis by (auto dest: set_arr_within_block)
next
  case (Append v)
  assume "step a c = Inr a'"
  with Append show ?thesis by (auto dest: append_arr_within_block)
next
  case PopBack
  assume "length_arr a \<le> int (size (data a))" "step a c = Inr a'"
  with PopBack show ?thesis by (auto dest: popBack_within_block)
next
  case PopFront
  assume "length_arr a \<le> int (size (data a))" "step a c = Inr a'"
  with PopFront show ?thesis by (auto simp: popFront_def)
qed

lemma run_within_block:
  "length_arr a \<le> int (size (data a)) \<Longrightarrow> run a cs = Inr a' \<Longrightarrow>
   length_arr a' \<le> int (size (data a'))"
proof (induction cs arbitrary: a)
  case Nil
  then show ?case by simp
next
  case (Cons c cs)
  then show ?case by (auto split: sum.splits dest: step_within_block)
qed

lemma run_newArray_within_block:
  "run (newArray c) cs = Inr a \<Longrightarrow> length_arr a \<le> int (size (data a))"
  by (rule run_within_block [of "newArray c"]) (simp_all add: newArray_def)

text \<open>
  One call keeps a well-formed array with at least one slot well formed, provided
  \<open>popBack\<close> is only called on an array that has an element.
\<close>

lemma step_well_formed:
  assumes "well_formed a" and "step a c = Inr a'" and "c = PopBack \<longrightarrow> 0 < length_arr a"
    and "1 \<le> capacity a"
  shows "well_formed a' \<and> 1 \<le> capacity a'"
proof (cases c)
  case (Get i)
  with assms show ?thesis by (auto split: sum.splits)
next
  case (Set i v)
  with assms(2) have s: "set_arr a i v = Inr a'" by simp
  then have r: "0 \<le> i" "i < length_arr a" and a': "a' = a\<lparr>data := (data a)[nat i := Some v]\<rparr>"
    by (auto simp: set_arr_def store_slot_def split: if_splits)
  have "elems a' = (elems a)[nat i := Some v]"
    using a' by (simp add: elems_def take_update_swap)
  moreover have "list_all (\<lambda>s. s \<noteq> None) ((elems a)[nat i := Some v])"
    using assms(1) by (auto simp: well_formed_def list_all_iff dest: set_update_subset_insert [THEN subsetD])
  ultimately show ?thesis using assms(1,4) a' by (simp add: well_formed_def)
next
  case (Append v)
  with assms(2) have s: "append_arr a v = Inr a'" by simp
  have "length_arr a < capacity a \<or> capacity a * 2 \<le> INT_MAX"
    using s assms(1) by (auto simp: append_arr_def grow_def well_formed_def split: if_splits sum.splits)
  from append_arr_well_formed [OF assms(1,4) this, of v] s show ?thesis by auto
next
  case PopBack
  with assms(2,3) have a': "a' = a\<lparr>length_arr := length_arr a - 1\<rparr>" and p: "0 < length_arr a"
    by (auto simp: popBack_def split: if_splits)
  have "nat (length_arr a - 1) \<le> nat (length_arr a)" by simp
  then have "set (take (nat (length_arr a - 1)) (data a)) \<subseteq> set (take (nat (length_arr a)) (data a))"
    by (rule set_take_subset_set_take)
  then have "list_all (\<lambda>s. s \<noteq> None) (elems a')"
    using assms(1) a' by (auto simp: well_formed_def elems_def list_all_iff)
  then show ?thesis using assms(1,4) a' p by (simp add: well_formed_def)
next
  case PopFront
  with assms show ?thesis by (auto simp: popFront_def)
qed

subsection \<open>The scenario of \<open>main\<close>\<close>

lemma main_scenario:
  "run (newArray 2) [Append 10, Append 20, Append 30] =
     Inr \<lparr>data = [Some 10, Some 20, Some 30, None], capacity = 4, length_arr = 3\<rparr>
   \<and> run (newArray 2) [Append 10, Append 20, Append 30, Set 1 15, PopBack] =
     Inr \<lparr>data = [Some 10, Some 15, Some 30, None], capacity = 4, length_arr = 2\<rparr>
   \<and> contents \<lparr>data = [Some 10, Some 15, Some 30, None], capacity = 4, length_arr = 2\<rparr> =
     [Inr 10, Inr 15]"
  by (simp add: op_defs prim_defs num_defs contents_def)

section \<open>The claims\<close>

text \<open>
  C1. The invariant \<open>0 \<le> length \<le> capacity\<close> in every state reached from
  \<open>newArray\<close> by calls of the functions. The code at an input where it does not hold:
  \<open>popBack\<close> decrements without looking at the length, so that after
  \<open>newArray(2)\<close>, \<open>append(10)\<close>, \<open>popBack\<close>, \<open>popBack\<close> the length is \<open>-1\<close>.
\<close>

theorem popBack_breaks_invariant:
  "run (newArray 2) [Append 10, PopBack, PopBack] =
     Inr \<lparr>data = [Some 10, None], capacity = 2, length_arr = - 1\<rparr>
   \<and> length_arr \<lparr>data = [Some 10, None], capacity = 2, length_arr = - 1\<rparr> < 0"
  by (simp add: op_defs prim_defs num_defs)

text \<open>
  C2. \<open>newArray(0)\<close> followed by one \<open>append(x)\<close> gives length 1, a capacity of at
  least 1 and \<open>x\<close> at index 0, the new block having \<open>max(1, capacity * 2)\<close> slots.
  The code at that input: the new block has \<open>0 * 2 = 0\<close> slots, the capacity stays
  0, and the store to slot 0 is outside the block.
\<close>

theorem append_zero_capacity:
  "grow (newArray 0) = Inr \<lparr>data = [], capacity = 0, length_arr = 0\<rparr>
   \<and> append_arr (newArray 0) x = Inl OutOfBlock"
  by (simp add: op_defs prim_defs)

text \<open>
  C3. After \<open>n\<close> appends of \<open>v\<^sub>0 \<dots> v\<^bsub>n-1\<^esub>\<close> to a new array, also one of
  capacity 0, \<open>get(i)\<close> is \<open>v\<^sub>i\<close> and the length is \<open>n\<close>. The code on a new
  array of capacity 0: the first append already stores outside the block, whatever the
  values.
\<close>

theorem append_all_zero_capacity:
  "append_all (newArray 0) (v # vs) = Inl OutOfBlock"
  by (simp add: op_defs prim_defs)

text \<open>
  C4. From \<open>newArray(2)\<close> the capacity is 2 after two appends, 4 after the third and
  the fourth, and 8 after the fifth; an append that returns has doubled the capacity
  exactly when it found \<open>length = capacity\<close>.
\<close>

theorem growth_doubling:
  "append_all (newArray 2) [v1, v2] =
     Inr \<lparr>data = [Some v1, Some v2], capacity = 2, length_arr = 2\<rparr>
   \<and> append_all (newArray 2) [v1, v2, v3] =
     Inr \<lparr>data = [Some v1, Some v2, Some v3, None], capacity = 4, length_arr = 3\<rparr>
   \<and> append_all (newArray 2) [v1, v2, v3, v4] =
     Inr \<lparr>data = [Some v1, Some v2, Some v3, Some v4], capacity = 4, length_arr = 4\<rparr>
   \<and> append_all (newArray 2) [v1, v2, v3, v4, v5] =
     Inr \<lparr>data = [Some v1, Some v2, Some v3, Some v4, Some v5, None, None, None],
          capacity = 8, length_arr = 5\<rparr>
   \<and> (append_arr a v = Inr a' \<longrightarrow>
        capacity a' = (if length_arr a = capacity a then capacity a * 2 else capacity a))"
proof -
  have "append_arr a v = Inr a' \<longrightarrow>
        capacity a' = (if length_arr a = capacity a then capacity a * 2 else capacity a)"
    by (auto simp: op_defs split: sum.splits if_splits)
  then show ?thesis by (simp add: op_defs prim_defs num_defs)
qed

theorem growth_doubling_witness:
  "append_arr \<lparr>data = [Some 10, Some 20], capacity = 2, length_arr = 2\<rparr> 30 =
     Inr \<lparr>data = [Some 10, Some 20, Some 30, None], capacity = 4, length_arr = 3\<rparr>
   \<and> capacity \<lparr>data = [Some 10, Some 20, Some 30, None], capacity = 4, length_arr = 3\<rparr> =
     capacity \<lparr>data = [Some 10, Some 20], capacity = 2, length_arr = 2\<rparr> * 2
   \<and> append_all (newArray 2) [10, 20, 30, 40, 50] =
     Inr \<lparr>data = [Some 10, Some 20, Some 30, Some 40, Some 50, None, None, None],
          capacity = 8, length_arr = 5\<rparr>"
proof -
  have h: "append_arr \<lparr>data = [Some 10, Some 20], capacity = 2, length_arr = 2\<rparr> 30 =
     Inr \<lparr>data = [Some 10, Some 20, Some 30, None], capacity = 4, length_arr = 3\<rparr>"
    by (simp add: op_defs prim_defs num_defs)
  show ?thesis
    using h growth_doubling [of 10 20 30 40 50
        "\<lparr>data = [Some 10, Some 20], capacity = 2, length_arr = 2\<rparr>" 30
        "\<lparr>data = [Some 10, Some 20, Some 30, None], capacity = 4, length_arr = 3\<rparr>"]
    by simp
qed

text \<open>
  C5. \<open>get\<close> and \<open>set\<close> end with a range error exactly when the index is below
  0 or not below the length. The test comes before the access: at such an index the
  outcome is the same whatever the block holds. \<open>get\<close> reads no slot at or beyond the
  length: two arrays of the same length that agree on the slots below it give the same
  result at every index.
\<close>

theorem range_check:
  "((\<exists>e. get a idx = Inl e \<and> OutOfRange e) \<longleftrightarrow> (idx < 0 \<or> length_arr a \<le> idx))
   \<and> ((\<exists>e. set_arr a idx v = Inl e \<and> OutOfRange e) \<longleftrightarrow> (idx < 0 \<or> length_arr a \<le> idx))
   \<and> (idx < 0 \<or> length_arr a \<le> idx \<longrightarrow>
        get (a\<lparr>data := d\<rparr>) idx = get a idx
        \<and> set_arr (a\<lparr>data := d\<rparr>) idx v = set_arr a idx v)
   \<and> (length_arr b = length_arr a
        \<and> take (nat (length_arr a)) (data b) = take (nat (length_arr a)) (data a) \<longrightarrow>
        get b idx = get a idx)"
proof -
  have "(\<exists>e. get a idx = Inl e \<and> OutOfRange e) \<longleftrightarrow> (idx < 0 \<or> length_arr a \<le> idx)"
    by (auto simp: get_def load_slot_def split: option.splits)
  moreover
  have "(\<exists>e. set_arr a idx v = Inl e \<and> OutOfRange e) \<longleftrightarrow> (idx < 0 \<or> length_arr a \<le> idx)"
    by (auto simp: set_arr_def store_slot_def)
  moreover
  have "idx < 0 \<or> length_arr a \<le> idx \<longrightarrow>
        get (a\<lparr>data := d\<rparr>) idx = get a idx
        \<and> set_arr (a\<lparr>data := d\<rparr>) idx v = set_arr a idx v"
    by (auto simp: get_def set_arr_def)
  moreover
  have "length_arr b = length_arr a
        \<and> take (nat (length_arr a)) (data b) = take (nat (length_arr a)) (data a) \<longrightarrow>
        get b idx = get a idx"
    by (auto simp: get_def intro: load_slot_take)
  ultimately show ?thesis by blast
qed

theorem range_check_witness:
  "get \<lparr>data = [Some 10, Some 20, Some 30, None], capacity = 4, length_arr = 2\<rparr> 2 =
     Inl RangeErrorEnd
   \<and> get \<lparr>data = [Some 10, Some 20, Some 30, None], capacity = 4, length_arr = 2\<rparr> 2 =
     get \<lparr>data = [Some 10, Some 20], capacity = 4, length_arr = 2\<rparr> 2
   \<and> set_arr \<lparr>data = [Some 10, Some 20, Some 30, None], capacity = 4, length_arr = 2\<rparr> 2 7 =
     set_arr \<lparr>data = [Some 10, Some 20], capacity = 4, length_arr = 2\<rparr> 2 7"
proof -
  let ?a = "\<lparr>data = [Some 10, Some 20, Some 30, None], capacity = 4, length_arr = 2\<rparr>"
  have h: "(2::int) < 0 \<or> length_arr ?a \<le> 2" by simp
  have e: "get ?a 2 = Inl RangeErrorEnd" by (simp add: get_def)
  show ?thesis
    using h e range_check [of ?a 2 7 "[Some 10, Some 20]" ?a] by simp
qed

text \<open>
  C6. \<open>popBack\<close> fails with an underflow exactly when the length is 0, and leaves the
  array as it was. The code on a new array, whose length is 0: it returns, and the
  length is \<open>-1\<close>.
\<close>

theorem popBack_on_empty:
  "popBack (newArray c) = Inr \<lparr>data = malloc_slots c, capacity = c, length_arr = - 1\<rparr>"
  by (simp add: op_defs)

text \<open>
  C7. On an array of length \<open>n > 0\<close>, \<open>popBack\<close> returns with length \<open>n - 1\<close>;
  the capacity and the block are as before, and \<open>get\<close> gives at every index below
  \<open>n - 1\<close> what it gave before.
\<close>

theorem popBack_nonempty:
  "0 < length_arr a \<Longrightarrow>
   \<exists>a'. popBack a = Inr a' \<and> length_arr a' = length_arr a - 1
        \<and> capacity a' = capacity a \<and> data a' = data a
        \<and> (\<forall>i. 0 \<le> i \<and> i < length_arr a - 1 \<longrightarrow> get a' i = get a i)"
  by (auto simp: popBack_def INT_MIN_def get_def)

theorem popBack_nonempty_witness:
  "popBack \<lparr>data = [Some 10, Some 15, Some 30, None], capacity = 4, length_arr = 3\<rparr> =
     Inr \<lparr>data = [Some 10, Some 15, Some 30, None], capacity = 4, length_arr = 2\<rparr>
   \<and> get \<lparr>data = [Some 10, Some 15, Some 30, None], capacity = 4, length_arr = 2\<rparr> 1 =
     get \<lparr>data = [Some 10, Some 15, Some 30, None], capacity = 4, length_arr = 3\<rparr> 1"
proof -
  let ?a = "\<lparr>data = [Some 10, Some 15, Some 30, None], capacity = 4, length_arr = 3\<rparr>"
  have h: "0 < length_arr ?a" by simp
  from popBack_nonempty [OF h] obtain a' where a': "popBack ?a = Inr a'"
    and g: "\<forall>i. 0 \<le> i \<and> i < length_arr ?a - 1 \<longrightarrow> get a' i = get ?a i"
    by blast
  have p: "popBack ?a =
    Inr \<lparr>data = [Some 10, Some 15, Some 30, None], capacity = 4, length_arr = 2\<rparr>"
    by (simp add: popBack_def INT_MIN_def)
  with a' have "a' = \<lparr>data = [Some 10, Some 15, Some 30, None], capacity = 4, length_arr = 2\<rparr>"
    by simp
  moreover have "get a' 1 = get ?a 1" using g by simp
  ultimately show ?thesis using p by simp
qed

text \<open>
  C8. Calling \<open>popFront\<close> changes nothing: the length, the capacity, the block and
  what \<open>get\<close> returns at every index are as before.
\<close>

theorem popFront_noop:
  "popFront a = a \<and> length_arr (popFront a) = length_arr a
   \<and> capacity (popFront a) = capacity a \<and> data (popFront a) = data a
   \<and> (\<forall>i. get (popFront a) i = get a i)"
  by (simp add: popFront_def)

text \<open>
  C9. At an index in \<open>[0, length)\<close> of an array whose first \<open>length\<close> slots lie in
  its block, \<open>set\<close> returns; the length, the capacity and the size of the block are as
  before, the slot of the index holds the value, and every other slot is as it was.
\<close>

theorem set_arr_frame:
  "0 \<le> idx \<Longrightarrow> idx < length_arr a \<Longrightarrow> length_arr a \<le> int (size (data a)) \<Longrightarrow>
   \<exists>a'. set_arr a idx v = Inr a' \<and> length_arr a' = length_arr a
        \<and> capacity a' = capacity a \<and> size (data a') = size (data a)
        \<and> data a' ! nat idx = Some v
        \<and> (\<forall>j. j \<noteq> nat idx \<longrightarrow> data a' ! j = data a ! j)"
  by (auto simp: set_arr_def store_slot_def)

theorem set_arr_frame_witness:
  "set_arr \<lparr>data = [Some 10, Some 20, Some 30, None], capacity = 4, length_arr = 3\<rparr> 1 15 =
     Inr \<lparr>data = [Some 10, Some 15, Some 30, None], capacity = 4, length_arr = 3\<rparr>
   \<and> [Some 10, Some 15, Some 30, None] ! 2 = [Some 10, Some 20, Some (30::int), None] ! 2"
proof -
  let ?a = "\<lparr>data = [Some 10, Some 20, Some 30, None], capacity = 4, length_arr = 3\<rparr>"
  have h: "(0::int) \<le> 1" "1 < length_arr ?a" "length_arr ?a \<le> int (size (data ?a))"
    by simp_all
  from set_arr_frame [OF h, of 15] obtain a' where a': "set_arr ?a 1 15 = Inr a'"
    and f: "\<forall>j. j \<noteq> nat 1 \<longrightarrow> data a' ! j = data ?a ! j"
    by blast
  have s: "set_arr ?a 1 15 =
    Inr \<lparr>data = [Some 10, Some 15, Some 30, None], capacity = 4, length_arr = 3\<rparr>"
    by (simp add: set_arr_def store_slot_def)
  with a' have "a' = \<lparr>data = [Some 10, Some 15, Some 30, None], capacity = 4, length_arr = 3\<rparr>"
    by simp
  moreover have "data a' ! 2 = data ?a ! 2" using f by simp
  ultimately show ?thesis using s by simp
qed

text \<open>
  C10. At an index \<open>i\<close> in \<open>[0, length)\<close> of an array whose first \<open>length\<close> slots
  lie in its block, \<open>set(i, v)\<close> returns, \<open>get(i)\<close> then returns \<open>v\<close>, and
  \<open>get(j)\<close> at every other index \<open>j\<close> in \<open>[0, length)\<close> gives what it gave before.
\<close>

theorem set_get_roundtrip:
  "0 \<le> i \<Longrightarrow> i < length_arr a \<Longrightarrow> length_arr a \<le> int (size (data a)) \<Longrightarrow>
   \<exists>a'. set_arr a i v = Inr a' \<and> get a' i = Inr v
        \<and> (\<forall>j. 0 \<le> j \<and> j < length_arr a \<and> j \<noteq> i \<longrightarrow> get a' j = get a j)"
  by (auto simp: set_arr_def get_def store_slot_def load_slot_def)

theorem set_get_roundtrip_witness:
  "set_arr \<lparr>data = [Some 10, Some 20, Some 30, None], capacity = 4, length_arr = 3\<rparr> 1 15 =
     Inr \<lparr>data = [Some 10, Some 15, Some 30, None], capacity = 4, length_arr = 3\<rparr>
   \<and> get \<lparr>data = [Some 10, Some 15, Some 30, None], capacity = 4, length_arr = 3\<rparr> 1 = Inr 15
   \<and> get \<lparr>data = [Some 10, Some 15, Some 30, None], capacity = 4, length_arr = 3\<rparr> 2 =
     get \<lparr>data = [Some 10, Some 20, Some 30, None], capacity = 4, length_arr = 3\<rparr> 2"
proof -
  let ?a = "\<lparr>data = [Some 10, Some 20, Some 30, None], capacity = 4, length_arr = 3\<rparr>"
  have h: "(0::int) \<le> 1" "1 < length_arr ?a" "length_arr ?a \<le> int (size (data ?a))"
    by simp_all
  from set_get_roundtrip [OF h, of 15] obtain a' where a': "set_arr ?a 1 15 = Inr a'"
    and g: "get a' 1 = Inr 15"
    and f: "\<forall>j. 0 \<le> j \<and> j < length_arr ?a \<and> j \<noteq> 1 \<longrightarrow> get a' j = get ?a j"
    by blast
  have s: "set_arr ?a 1 15 =
    Inr \<lparr>data = [Some 10, Some 15, Some 30, None], capacity = 4, length_arr = 3\<rparr>"
    by (simp add: set_arr_def store_slot_def)
  with a' have e: "a' = \<lparr>data = [Some 10, Some 15, Some 30, None], capacity = 4, length_arr = 3\<rparr>"
    by simp
  have "get a' 2 = get ?a 2" using f by simp
  then show ?thesis using s g e by simp
qed

end
